theory Spec2Isabelle
  imports Main "HOL-Library.Word"
begin

section \<open>The identifier manager of \<open>pkg/app2/idmanager/manager.go\<close>\<close>

text \<open>
  The Go type \<open>Manager\<close> holds a map from \<open>uint16\<close> keys to \<open>interface{}\<close> values and
  the last issued key \<open>lstID\<close>. An \<open>interface{}\<close> value may be \<open>nil\<close>, and the code tests
  for it, so a stored value is a \<open>'v option\<close>: \<open>None\<close> is \<open>nil\<close>, \<open>Some v\<close> a payload.
  The map is a partial function on 16-bit words. A key is therefore in one of three
  states: absent (\<open>None\<close>), present with \<open>nil\<close> (\<open>Some None\<close>), present with a payload
  (\<open>Some (Some v)\<close>).

  Every method takes the write lock (or the read lock, for \<open>Get\<close>) for its whole
  access to the two fields, so each method is one atomic step on the state: the model
  passes the state in and returns the new one. The field \<open>values\<close> is called
  \<open>values_m\<close> here, since \<open>values\<close> is a command of Isabelle, and the parameter
  \<open>id\<close> of the methods is called \<open>ident\<close>, since \<open>id\<close> is the identity function of HOL.
\<close>

type_synonym u16 = "16 word"

record 'v Manager =
  values_m :: "u16 \<Rightarrow> 'v option option"
  lstID :: u16

text \<open>
  The two error variables of the package, and the three errors the methods build in
  place: \<open>fmt.Errorf("no value with id %d", id)\<close>,
  \<open>fmt.Errorf("value with id %d is not set", id)\<close> and
  \<open>errors.New("id is not reserved")\<close>.
\<close>

datatype error =
    errNoMoreAvailableValues
  | errValueAlreadyExists
  | errNoValueWithID u16
  | errValueNotSet u16
  | errIDNotReserved

definition New :: "'v Manager" where
  "New = \<lparr>values_m = (\<lambda>k. None), lstID = 0\<rparr>"

text \<open>
  \<open>constructFreeFunc id\<close> is the closure \<open>func() { delete(m.values, id) }\<close>. It captures
  the manager by pointer, so in the model it is a function on the state of the manager
  at the moment it is called.
\<close>

definition constructFreeFunc :: "u16 \<Rightarrow> 'v Manager \<Rightarrow> 'v Manager" where
  "constructFreeFunc ident m = m\<lparr>values_m := (values_m m)(ident := None)\<rparr>"

text \<open>
  The loop of \<open>ReserveNextID\<close>:
  \<^verbatim>\<open>for ; nxtID != m.lstID; nxtID++ { if _, ok := m.values[nxtID]; !ok { break } }\<close>
  The counter is a \<open>uint16\<close>, so \<open>nxtID++\<close> wraps from 65535 to 0. The function returns
  the value of \<open>nxtID\<close> when the loop is left.
\<close>

function scan :: "(u16 \<Rightarrow> 'v option option) \<Rightarrow> u16 \<Rightarrow> u16 \<Rightarrow> u16" where
  "scan vals lst nxtID =
     (if nxtID \<noteq> lst
      then (if vals nxtID = None then nxtID else scan vals lst (nxtID + 1))
      else nxtID)"
  by pat_completeness auto
termination
proof (relation "measure (\<lambda>(vals, lst, nxtID). unat (lst - nxtID))")
  show "wf (measure (\<lambda>(vals :: u16 \<Rightarrow> 'v option option, lst, nxtID). unat (lst - nxtID)))"
    by simp
next
  fix vals :: "u16 \<Rightarrow> 'v option option" and lst nxtID :: u16
  assume "nxtID \<noteq> lst"
  then have "lst - nxtID \<noteq> 0" by simp
  then have "unat (lst - nxtID - 1) < unat (lst - nxtID)"
    by (rule measure_unat)
  moreover have "lst - (nxtID + 1) = lst - nxtID - 1" by simp
  ultimately have "unat (lst - (nxtID + 1)) < unat (lst - nxtID)"
    by (simp only:)
  then show "((vals, lst, nxtID + 1), (vals, lst, nxtID))
      \<in> measure (\<lambda>(vals, lst, nxtID). unat (lst - nxtID))"
    by simp
qed

declare scan.simps [simp del]

definition ReserveNextID ::
  "'v Manager \<Rightarrow> (error + u16 \<times> ('v Manager \<Rightarrow> 'v Manager)) \<times> 'v Manager" where
  "ReserveNextID m =
     (let nxtID = scan (values_m m) (lstID m) (lstID m + 1)
      in if nxtID = lstID m then (Inl errNoMoreAvailableValues, m)
         else (Inr (nxtID, constructFreeFunc nxtID),
               m\<lparr>values_m := (values_m m)(nxtID \<mapsto> None), lstID := nxtID\<rparr>))"

definition Pop :: "'v Manager \<Rightarrow> u16 \<Rightarrow> (error + 'v option) \<times> 'v Manager" where
  "Pop m ident =
     (case values_m m ident of
        None \<Rightarrow> (Inl (errNoValueWithID ident), m)
      | Some v \<Rightarrow>
          if v = None then (Inl (errValueNotSet ident), m)
          else (Inr v, m\<lparr>values_m := (values_m m)(ident := None)\<rparr>))"

definition Add ::
  "'v Manager \<Rightarrow> u16 \<Rightarrow> 'v option \<Rightarrow> (error + ('v Manager \<Rightarrow> 'v Manager)) \<times> 'v Manager" where
  "Add m ident v =
     (if values_m m ident \<noteq> None then (Inl errValueAlreadyExists, m)
      else (Inr (constructFreeFunc ident), m\<lparr>values_m := (values_m m)(ident \<mapsto> v)\<rparr>))"

text \<open>\<open>Set\<close> returns an \<open>error\<close>, which is \<open>nil\<close> on success: \<open>None\<close> here.\<close>

definition Set :: "'v Manager \<Rightarrow> u16 \<Rightarrow> 'v option \<Rightarrow> error option \<times> 'v Manager" where
  "Set m ident v =
     (case values_m m ident of
        None \<Rightarrow> (Some errIDNotReserved, m)
      | Some l \<Rightarrow>
          if l \<noteq> None then (Some errValueAlreadyExists, m)
          else (None, m\<lparr>values_m := (values_m m)(ident \<mapsto> v)\<rparr>))"

text \<open>
  \<open>Get\<close> reads \<open>lis, ok := m.values[id]\<close>: for a missing key Go gives the zero value
  \<open>nil\<close> and \<open>ok = false\<close>.
\<close>

definition Get :: "'v Manager \<Rightarrow> u16 \<Rightarrow> 'v option \<times> bool" where
  "Get m ident =
     (let lis = (case values_m m ident of None \<Rightarrow> None | Some x \<Rightarrow> x);
          ok = (values_m m ident \<noteq> None)
      in if lis = None then (None, False) else (lis, ok))"


subsection \<open>The scan order of the reservation, as the specification words it\<close>

text \<open>
  The specification describes the scan as going through the keys \<open>cursor + 1\<close>,
  \<open>cursor + 2\<close>, ... and wrapping through the whole 16-bit space. \<open>scan_order\<close> is that
  list of all 65536 keys (its last element is the cursor itself), and \<open>first_absent\<close>
  is the first key of it that the table does not hold. They follow the words of the
  specification and are compared with the loop of the code below.
\<close>

definition scan_order :: "u16 \<Rightarrow> u16 list" where
  "scan_order lst = map (\<lambda>i. lst + 1 + of_nat i) [0..<2 ^ 16]"

definition first_absent :: "(u16 \<Rightarrow> 'v option option) \<Rightarrow> u16 \<Rightarrow> u16 option" where
  "first_absent vals lst = find (\<lambda>k. vals k = None) (scan_order lst)"

subsection \<open>Sequences of calls\<close>

text \<open>\<open>Set_seq m k vs\<close> calls \<open>Set\<close> on the key \<open>k\<close> with each value of \<open>vs\<close> in turn.\<close>

fun Set_seq :: "'v Manager \<Rightarrow> u16 \<Rightarrow> 'v option list \<Rightarrow> error option list \<times> 'v Manager" where
  "Set_seq m k [] = ([], m)"
| "Set_seq m k (v # vs) =
     (case Set m k v of (e, m1) \<Rightarrow>
        case Set_seq m1 k vs of (es, m2) \<Rightarrow> (e # es, m2))"

text \<open>
  A call of one of the mutating methods, of \<open>Get\<close>, or of a release closure (the closure
  bound to the key \<open>k\<close> is \<open>constructFreeFunc k\<close>, whoever returned it).
\<close>

datatype 'v call =
    CallReserveNextID
  | CallPop u16
  | CallAdd u16 "'v option"
  | CallSet u16 "'v option"
  | CallGet u16
  | CallFree u16

text \<open>\<open>exec_call\<close> runs one call; it returns the key a successful reservation issued.\<close>

fun exec_call :: "'v Manager \<Rightarrow> 'v call \<Rightarrow> u16 list \<times> 'v Manager" where
  "exec_call m CallReserveNextID =
     (case ReserveNextID m of
        (Inl e, m') \<Rightarrow> ([], m')
      | (Inr (k, free), m') \<Rightarrow> ([k], m'))"
| "exec_call m (CallPop k) = ([], snd (Pop m k))"
| "exec_call m (CallAdd k v) = ([], snd (Add m k v))"
| "exec_call m (CallSet k v) = ([], snd (Set m k v))"
| "exec_call m (CallGet k) = ([], m)"
| "exec_call m (CallFree k) = ([], constructFreeFunc k m)"

text \<open>\<open>run_calls\<close> runs a list of calls and collects the keys the reservations issued.\<close>

fun run_calls :: "'v Manager \<Rightarrow> 'v call list \<Rightarrow> u16 list \<times> 'v Manager" where
  "run_calls m [] = ([], m)"
| "run_calls m (c # cs) =
     (case exec_call m c of (ks, m1) \<Rightarrow>
        case run_calls m1 cs of (ks', m2) \<Rightarrow> (ks @ ks', m2))"

text \<open>The key a call removes when it succeeds: \<open>Pop\<close> and the release closures remove.\<close>

fun removed_key :: "'v call \<Rightarrow> u16 option" where
  "removed_key (CallPop k) = Some k"
| "removed_key (CallFree k) = Some k"
| "removed_key _ = None"

text \<open>
  \<open>keeps_reserved held m cs\<close>: no call of \<open>cs\<close>, run from \<open>m\<close>, is a \<open>Pop\<close> or a release
  of a key that is in \<open>held\<close> or that a reservation earlier in \<open>cs\<close> issued.
\<close>

fun keeps_reserved :: "u16 list \<Rightarrow> 'v Manager \<Rightarrow> 'v call list \<Rightarrow> bool" where
  "keeps_reserved held m [] = True"
| "keeps_reserved held m (c # cs) =
     ((case removed_key c of None \<Rightarrow> True | Some k \<Rightarrow> k \<notin> set held)
      \<and> keeps_reserved (held @ fst (exec_call m c)) (snd (exec_call m c)) cs)"

subsection \<open>States used as examples\<close>

text \<open>The cursor is at 65534, the keys 65535 and 0 are taken: the next scan wraps.\<close>

definition wrap_state :: "nat Manager" where
  "wrap_state = \<lparr>values_m = [65535 \<mapsto> Some 7, 0 \<mapsto> None], lstID = 65534\<rparr>"

text \<open>Every key is present; key 1 is reserved-empty and all others hold a payload.\<close>

definition full_state :: "nat Manager" where
  "full_state = \<lparr>values_m = (\<lambda>k. if k = 1 then Some None else Some (Some 0)), lstID = 0\<rparr>"

text \<open>Key 1 is reserved-empty, key 2 holds the payload 7, the cursor is at 1.\<close>

definition small_state :: "nat Manager" where
  "small_state = \<lparr>values_m = [1 \<mapsto> None, 2 \<mapsto> Some 7], lstID = 1\<rparr>"

text \<open>
  Calls on a new manager: three reservations, with an \<open>Add\<close>, a \<open>Set\<close> on a reserved
  key, a release of the added key and a failing \<open>Pop\<close> in between.
\<close>

definition example_calls :: "nat call list" where
  "example_calls =
     [CallReserveNextID, CallAdd 2 (Some 7), CallReserveNextID, CallSet 1 (Some 9),
      CallFree 2, CallPop 5, CallReserveNextID]"

section \<open>Properties\<close>

subsection \<open>The loop\<close>

lemma scan_stop: "scan vals lst lst = lst"
  by (subst scan.simps) simp

lemma scan_found: "nxtID \<noteq> lst \<Longrightarrow> vals nxtID = None \<Longrightarrow> scan vals lst nxtID = nxtID"
  by (subst scan.simps) simp

lemma scan_present:
  "nxtID \<noteq> lst \<Longrightarrow> vals nxtID \<noteq> None \<Longrightarrow> scan vals lst nxtID = scan vals lst (nxtID + 1)"
  by (subst scan.simps) auto

lemma u16_wrap: "(65536 :: u16) = 0"
  by simp

lemma unat_lt_65536: "unat (x :: u16) < 2 ^ 16"
  using unsigned_less [of x, where 'a = nat] by simp

lemma unat_of_nat_u16: "i < 2 ^ 16 \<Longrightarrow> unat (of_nat i :: u16) = i"
  by (simp add: unat_of_nat)

lemma unat_succ_diff:
  fixes a b :: u16
  assumes "a \<noteq> b"
  shows "unat (a - b) = Suc (unat (a - (b + 1)))"
proof -
  from assms have nz: "a - b \<noteq> 0" by simp
  have "a - (b + 1) = a - b - 1" by simp
  then have "unat (a - (b + 1)) = unat (a - b) - 1"
    using unat_minus_one [OF nz] by (simp only:)
  moreover from nz have "0 < unat (a - b)" by (simp add: unat_gt_0)
  ultimately show ?thesis by simp
qed

text \<open>The loop stops at the cursor or at an absent key.\<close>

lemma scan_result:
  "scan vals lst nxtID = lst \<or> vals (scan vals lst nxtID) = None"
proof (induction vals lst nxtID rule: scan.induct)
  case (1 vals lst nxtID)
  show ?case
  proof (cases "nxtID = lst")
    case True
    then show ?thesis by (simp add: scan_stop)
  next
    case False
    show ?thesis
    proof (cases "vals nxtID")
      case None
      with False show ?thesis by (simp add: scan_found)
    next
      case (Some y)
      with False "1.IH" show ?thesis by (simp add: scan_present)
    qed
  qed
qed

text \<open>Every key the loop went past is present.\<close>

lemma scan_skipped:
  "unat (j - nxtID) < unat (scan vals lst nxtID - nxtID) \<Longrightarrow> vals j \<noteq> None"
proof (induction vals lst nxtID rule: scan.induct)
  case (1 vals lst nxtID)
  show ?case
  proof (cases "nxtID = lst")
    case True
    with "1.prems" show ?thesis by (simp add: scan_stop)
  next
    case False
    show ?thesis
    proof (cases "vals nxtID")
      case None
      with False "1.prems" show ?thesis by (simp add: scan_found)
    next
      case (Some y)
      let ?r = "scan vals lst (nxtID + 1)"
      from False Some have eq: "scan vals lst nxtID = ?r" by (simp add: scan_present)
      show ?thesis
      proof (cases "j = nxtID")
        case True
        with Some show ?thesis by simp
      next
        case jn: False
        from "1.prems" eq have lt: "unat (j - nxtID) < unat (?r - nxtID)" by simp
        then have "?r \<noteq> nxtID" by auto
        then have "unat (?r - nxtID) = Suc (unat (?r - (nxtID + 1)))"
          by (rule unat_succ_diff)
        moreover from jn have "unat (j - nxtID) = Suc (unat (j - (nxtID + 1)))"
          by (rule unat_succ_diff)
        ultimately have "unat (j - (nxtID + 1)) < unat (?r - (nxtID + 1))"
          using lt by simp
        with False Some "1.IH" show ?thesis by simp
      qed
    qed
  qed
qed

lemma scan_order_nth: "scan_order lst ! unat (k - (lst + 1)) = k"
  using unat_lt_65536 [of "k - (lst + 1)"] by (simp add: scan_order_def)

lemma scan_first_absent:
  assumes "scan vals lst (lst + 1) = k" and "k \<noteq> lst"
  shows "first_absent vals lst = Some k"
proof -
  let ?i = "unat (k - (lst + 1))"
  have len: "?i < length (scan_order lst)"
    using unat_lt_65536 [of "k - (lst + 1)"] by (simp add: scan_order_def)
  have absent: "vals k = None"
    using scan_result [of vals lst "lst + 1"] assms by auto
  have before: "vals (scan_order lst ! j) \<noteq> None" if "j < ?i" for j
  proof -
    from that len have j: "j < 2 ^ 16" by (simp add: scan_order_def)
    then have "scan_order lst ! j = lst + 1 + of_nat j" by (simp add: scan_order_def)
    moreover have "unat (lst + 1 + of_nat j - (lst + 1)) = j"
      using j by (simp add: unat_of_nat_u16)
    ultimately have
      "unat (scan_order lst ! j - (lst + 1)) < unat (scan vals lst (lst + 1) - (lst + 1))"
      using that assms by simp
    then show ?thesis by (rule scan_skipped)
  qed
  have "\<exists>i<length (scan_order lst).
          vals (scan_order lst ! i) = None \<and> k = scan_order lst ! i
          \<and> (\<forall>j<i. \<not> vals (scan_order lst ! j) = None)"
  proof (intro exI [of _ ?i] conjI allI impI)
    show "?i < length (scan_order lst)" by (rule len)
    show "vals (scan_order lst ! ?i) = None" using absent by (simp add: scan_order_nth)
    show "k = scan_order lst ! ?i" by (simp add: scan_order_nth)
    show "\<not> vals (scan_order lst ! j) = None" if "j < ?i" for j
      using before [OF that] .
  qed
  then show ?thesis
    unfolding first_absent_def find_Some_iff .
qed

lemma ReserveNextID_Inr:
  assumes "ReserveNextID m = (Inr (k, free), m')"
  shows "scan (values_m m) (lstID m) (lstID m + 1) = k" and "k \<noteq> lstID m"
    and "free = constructFreeFunc k"
    and "m' = m\<lparr>values_m := (values_m m)(k \<mapsto> None), lstID := k\<rparr>"
  using assms by (auto simp: ReserveNextID_def Let_def split: if_splits)

lemma ReserveNextID_wrap_state:
  "ReserveNextID wrap_state =
     (Inr (1, constructFreeFunc 1),
      wrap_state\<lparr>values_m := (values_m wrap_state)(1 \<mapsto> None), lstID := 1\<rparr>)"
  by (simp add: ReserveNextID_def wrap_state_def scan_present scan_found u16_wrap)

subsection \<open>Reservation\<close>

text \<open>
  Claim C1. Whenever \<open>ReserveNextID\<close> succeeds, the key it returns is the first key
  absent from the table in the order \<open>cursor + 1\<close>, \<open>cursor + 2\<close>, ... wrapping through
  the 16-bit key space; in the new state that key is present with an unset value
  (reserved-empty), nothing else in the table has changed, the cursor is that key, and
  the closure returned is the release closure of that key.
\<close>

theorem ReserveNextID_first_absent:
  assumes "ReserveNextID m = (Inr (k, free), m')"
  shows "first_absent (values_m m) (lstID m) = Some k
       \<and> values_m m k = None
       \<and> values_m m' = (values_m m)(k \<mapsto> None)
       \<and> values_m m' k = Some None
       \<and> lstID m' = k
       \<and> free = constructFreeFunc k"
proof -
  note r = ReserveNextID_Inr [OF assms]
  have "first_absent (values_m m) (lstID m) = Some k"
    using r(1,2) by (rule scan_first_absent)
  moreover have "values_m m k = None"
    using scan_result [of "values_m m" "lstID m" "lstID m + 1"] r(1,2) by auto
  ultimately show ?thesis using r(3,4) by simp
qed

theorem ReserveNextID_first_absent_witness:
  "ReserveNextID wrap_state =
     (Inr (1, constructFreeFunc 1),
      wrap_state\<lparr>values_m := (values_m wrap_state)(1 \<mapsto> None), lstID := 1\<rparr>)
   \<and> first_absent (values_m wrap_state) (lstID wrap_state) = Some 1
   \<and> values_m wrap_state 1 = None
   \<and> lstID (wrap_state\<lparr>values_m := (values_m wrap_state)(1 \<mapsto> None), lstID := 1\<rparr>) = 1"
  using ReserveNextID_first_absent [OF ReserveNextID_wrap_state] ReserveNextID_wrap_state
  by simp


subsection \<open>Add and Get\<close>

text \<open>
  Claim C2, as the specification states it, for every value: \<open>Add\<close> on an absent key
  succeeds and a following \<open>Get\<close> returns the value with \<open>found = true\<close>. It fails for
  the value \<open>nil\<close>: \<open>Add(1, nil)\<close> on the new manager succeeds, and \<open>Get(1)\<close> then
  returns \<open>(nil, false)\<close>.
\<close>

theorem Add_nil_Get_counterexample:
  "values_m (New :: nat Manager) 1 = None
   \<and> fst (Add (New :: nat Manager) 1 None) = Inr (constructFreeFunc 1)
   \<and> Get (snd (Add (New :: nat Manager) 1 None)) 1 = (None, False)
   \<and> Get (snd (Add (New :: nat Manager) 1 None)) 1 \<noteq> (None, True)"
  by (simp add: New_def Add_def Get_def)

text \<open>
  Claim C2, amended. For every key \<open>k\<close> and every value \<open>v\<close> that is not \<open>nil\<close>: if \<open>k\<close>
  is absent, \<open>Add(k, v)\<close> succeeds, stores \<open>v\<close> under \<open>k\<close>, and a following \<open>Get(k)\<close>
  returns \<open>v\<close> with \<open>found = true\<close>. For every value \<open>v'\<close>, \<open>nil\<close> or not: if \<open>k\<close> is
  present (reserved-empty or occupied), \<open>Add(k, v')\<close> fails with
  \<open>errValueAlreadyExists\<close> and leaves the state, so the value under \<open>k\<close>, as it was.
\<close>

theorem Add_then_Get:
  "(values_m m k = None \<longrightarrow>
      Add m k (Some v) = (Inr (constructFreeFunc k), m\<lparr>values_m := (values_m m)(k \<mapsto> Some v)\<rparr>)
      \<and> Get (snd (Add m k (Some v))) k = (Some v, True))
   \<and> (values_m m k \<noteq> None \<longrightarrow>
      Add m k v' = (Inl errValueAlreadyExists, m)
      \<and> values_m (snd (Add m k v')) k = values_m m k)"
  by (simp add: Add_def Get_def)

theorem Add_then_Get_witness:
  "values_m small_state 3 = None
   \<and> Add small_state 3 (Some 5) =
       (Inr (constructFreeFunc 3), small_state\<lparr>values_m := (values_m small_state)(3 \<mapsto> Some 5)\<rparr>)
   \<and> Get (snd (Add small_state 3 (Some 5))) 3 = (Some 5, True)
   \<and> values_m small_state 2 \<noteq> None
   \<and> Add small_state 2 (Some 9) = (Inl errValueAlreadyExists, small_state)
   \<and> values_m (snd (Add small_state 2 (Some 9))) 2 = Some (Some 7)"
proof -
  have absent: "values_m small_state 3 = None"
    and present: "values_m small_state 2 \<noteq> None"
    and held: "values_m small_state 2 = Some (Some 7)"
    by (simp_all add: small_state_def)
  from absent Add_then_Get [of small_state 3 5 "Some 9"]
  have "Add small_state 3 (Some 5) =
          (Inr (constructFreeFunc 3), small_state\<lparr>values_m := (values_m small_state)(3 \<mapsto> Some 5)\<rparr>)
        \<and> Get (snd (Add small_state 3 (Some 5))) 3 = (Some 5, True)"
    by blast
  moreover from present Add_then_Get [of small_state 2 5 "Some 9"]
  have "Add small_state 2 (Some 9) = (Inl errValueAlreadyExists, small_state)
        \<and> values_m (snd (Add small_state 2 (Some 9))) 2 = Some (Some 7)"
    by (simp add: held)
  ultimately show ?thesis using absent present by blast
qed

subsection \<open>Set\<close>

text \<open>
  Claim C3, as the specification states it, for any sequence of values: on a
  reserved-empty key the first \<open>Set\<close> succeeds and every later one fails. It fails for
  the sequence \<open>nil, 5\<close>: \<open>Set(1, nil)\<close> succeeds and leaves key 1 reserved-empty, so
  \<open>Set(1, 5)\<close> succeeds as well.
\<close>

theorem Set_nil_twice_counterexample:
  "values_m small_state 1 = Some None
   \<and> fst (Set_seq small_state 1 [None, Some 5]) = [None, None]
   \<and> fst (Set_seq small_state 1 [None, Some 5]) \<noteq> [None, Some errValueAlreadyExists]"
  by (simp add: small_state_def Set_def)

lemma Set_seq_occupied:
  "values_m m k = Some (Some x) \<Longrightarrow>
     Set_seq m k vs = (replicate (length vs) (Some errValueAlreadyExists), m)"
  by (induction vs) (simp_all add: Set_def)

lemma Set_seq_nils:
  "values_m m k = Some None \<Longrightarrow> Set_seq m k (replicate n None @ vs) =
     (case Set_seq m k vs of (es, m') \<Rightarrow> (replicate n None @ es, m'))"
proof (induction n)
  case 0
  then show ?case by simp
next
  case (Suc n)
  from Suc.prems have "Set m k None = (None, m\<lparr>values_m := (values_m m)(k \<mapsto> None)\<rparr>)"
    by (simp add: Set_def)
  moreover from Suc.prems have "(values_m m)(k \<mapsto> None) = values_m m"
    by (simp add: fun_eq_iff)
  ultimately have "Set m k None = (None, m)" by simp
  with Suc show ?case by (simp split: prod.splits)
qed

text \<open>
  Claim C3, amended. For every key \<open>k\<close>: \<open>Set(k, v)\<close> fails with \<open>errIDNotReserved\<close> when
  \<open>k\<close> is absent and with \<open>errValueAlreadyExists\<close> when \<open>k\<close> is occupied, in both cases
  without changing the state. On a reserved-empty \<open>k\<close>, the first \<open>Set\<close> whose value is
  not \<open>nil\<close> succeeds and stores the value, and every later \<open>Set\<close> on \<open>k\<close>, whatever its
  value, fails with \<open>errValueAlreadyExists\<close>; \<open>Set\<close> calls with \<open>nil\<close> before it succeed
  and leave \<open>k\<close> reserved-empty. So for any sequence of values that are not \<open>nil\<close>,
  \<open>Set\<close> on a reserved-empty key succeeds exactly once.
\<close>

theorem Set_once:
  "(values_m m k = None \<longrightarrow> Set m k v = (Some errIDNotReserved, m))
   \<and> (values_m m k = Some (Some x) \<longrightarrow> Set m k v = (Some errValueAlreadyExists, m))
   \<and> (values_m m k = Some None \<longrightarrow>
        Set m k (Some w) = (None, m\<lparr>values_m := (values_m m)(k \<mapsto> Some w)\<rparr>)
        \<and> fst (Set_seq m k (Some w # vs)) = None # replicate (length vs) (Some errValueAlreadyExists)
        \<and> fst (Set_seq m k (replicate n None @ Some w # vs))
            = replicate n None @ None # replicate (length vs) (Some errValueAlreadyExists)
        \<and> values_m (snd (Set_seq m k (replicate n None @ Some w # vs))) k = Some (Some w))"
proof (intro conjI impI)
  assume "values_m m k = None"
  then show "Set m k v = (Some errIDNotReserved, m)" by (simp add: Set_def)
next
  assume "values_m m k = Some (Some x)"
  then show "Set m k v = (Some errValueAlreadyExists, m)" by (simp add: Set_def)
next
  assume r: "values_m m k = Some None"
  let ?m1 = "m\<lparr>values_m := (values_m m)(k \<mapsto> Some w)\<rparr>"
  from r show s: "Set m k (Some w) = (None, ?m1)" by (simp add: Set_def)
  have "values_m ?m1 k = Some (Some w)" by simp
  then have rest: "Set_seq ?m1 k vs = (replicate (length vs) (Some errValueAlreadyExists), ?m1)"
    by (rule Set_seq_occupied)
  from s rest have one: "Set_seq m k (Some w # vs)
      = (None # replicate (length vs) (Some errValueAlreadyExists), ?m1)"
    by simp
  then show "fst (Set_seq m k (Some w # vs))
      = None # replicate (length vs) (Some errValueAlreadyExists)"
    by simp
  from one Set_seq_nils [OF r, of n "Some w # vs"]
  have all: "Set_seq m k (replicate n None @ Some w # vs)
      = (replicate n None @ None # replicate (length vs) (Some errValueAlreadyExists), ?m1)"
    by simp
  then show "fst (Set_seq m k (replicate n None @ Some w # vs))
      = replicate n None @ None # replicate (length vs) (Some errValueAlreadyExists)"
    by simp
  from all show "values_m (snd (Set_seq m k (replicate n None @ Some w # vs))) k = Some (Some w)"
    by simp
qed

theorem Set_once_witness:
  "values_m small_state 3 = None
   \<and> Set small_state 3 (Some 5) = (Some errIDNotReserved, small_state)
   \<and> values_m small_state 2 = Some (Some 7)
   \<and> Set small_state 2 (Some 5) = (Some errValueAlreadyExists, small_state)
   \<and> values_m small_state 1 = Some None
   \<and> Set small_state 1 (Some 4) =
       (None, small_state\<lparr>values_m := (values_m small_state)(1 \<mapsto> Some 4)\<rparr>)
   \<and> fst (Set_seq small_state 1 [Some 4, Some 5, None])
       = [None, Some errValueAlreadyExists, Some errValueAlreadyExists]
   \<and> fst (Set_seq small_state 1 [None, Some 4, Some 5, None])
       = [None, None, Some errValueAlreadyExists, Some errValueAlreadyExists]"
proof -
  have absent: "values_m small_state 3 = None"
    and occupied: "values_m small_state 2 = Some (Some 7)"
    and reserved: "values_m small_state 1 = Some None"
    by (simp_all add: small_state_def)
  from absent Set_once [of small_state 3 "Some 5" 7 4 "[Some 5, None]" 1]
  have "Set small_state 3 (Some 5) = (Some errIDNotReserved, small_state)"
    by blast
  moreover from occupied Set_once [of small_state 2 "Some 5" 7 4 "[Some 5, None]" 1]
  have "Set small_state 2 (Some 5) = (Some errValueAlreadyExists, small_state)"
    by blast
  moreover from reserved Set_once [of small_state 1 "Some 5" 7 4 "[Some 5, None]" 1]
  have "Set small_state 1 (Some 4) =
          (None, small_state\<lparr>values_m := (values_m small_state)(1 \<mapsto> Some 4)\<rparr>)
        \<and> fst (Set_seq small_state 1 (Some 4 # [Some 5, None]))
            = None # replicate (length [Some 5, None :: nat option]) (Some errValueAlreadyExists)
        \<and> fst (Set_seq small_state 1 (replicate 1 None @ Some 4 # [Some 5, None]))
            = replicate 1 None @ None
                # replicate (length [Some 5, None :: nat option]) (Some errValueAlreadyExists)"
    by blast
  moreover have "replicate 1 None @ Some 4 # [Some 5, None] = [None, Some 4, Some 5, None :: nat option]"
    and "replicate 1 None @ None # replicate (length [Some 5, None :: nat option]) (Some errValueAlreadyExists)
         = [None, None, Some errValueAlreadyExists, Some errValueAlreadyExists]"
    and "None # replicate (length [Some 5, None :: nat option]) (Some errValueAlreadyExists)
         = [None, Some errValueAlreadyExists, Some errValueAlreadyExists]"
    by (simp_all add: numeral_2_eq_2)
  ultimately show ?thesis using absent occupied reserved by (simp only:)
qed


subsection \<open>Pop\<close>

text \<open>
  Claim C4. For every key \<open>k\<close>: \<open>Pop(k)\<close> fails with the error "no value with id"
  exactly when \<open>k\<close> is absent, and with the error "value with id is not set" exactly when
  \<open>k\<close> is reserved-empty; when \<open>k\<close> is occupied it returns the stored value and removes
  \<open>k\<close>, only \<open>k\<close>, from the table, so that a following \<open>Get(k)\<close> returns not-found.
\<close>

theorem Pop_cases:
  "((\<exists>j. fst (Pop m k) = Inl (errNoValueWithID j)) \<longleftrightarrow> values_m m k = None)
   \<and> ((\<exists>j. fst (Pop m k) = Inl (errValueNotSet j)) \<longleftrightarrow> values_m m k = Some None)
   \<and> (values_m m k = None \<longrightarrow> Pop m k = (Inl (errNoValueWithID k), m))
   \<and> (values_m m k = Some None \<longrightarrow> Pop m k = (Inl (errValueNotSet k), m))
   \<and> (values_m m k = Some (Some v) \<longrightarrow>
        Pop m k = (Inr (Some v), m\<lparr>values_m := (values_m m)(k := None)\<rparr>)
        \<and> values_m (snd (Pop m k)) k = None
        \<and> Get (snd (Pop m k)) k = (None, False))"
  by (cases "values_m m k") (auto simp: Pop_def Get_def)

theorem Pop_cases_witness:
  "values_m small_state 3 = None
   \<and> Pop small_state 3 = (Inl (errNoValueWithID 3), small_state)
   \<and> values_m small_state 1 = Some None
   \<and> Pop small_state 1 = (Inl (errValueNotSet 1), small_state)
   \<and> values_m small_state 2 = Some (Some 7)
   \<and> Pop small_state 2 = (Inr (Some 7), small_state\<lparr>values_m := (values_m small_state)(2 := None)\<rparr>)
   \<and> values_m (snd (Pop small_state 2)) 2 = None
   \<and> Get (snd (Pop small_state 2)) 2 = (None, False)"
proof -
  have absent: "values_m small_state 3 = None"
    and reserved: "values_m small_state 1 = Some None"
    and occupied: "values_m small_state 2 = Some (Some 7)"
    by (simp_all add: small_state_def)
  from absent Pop_cases [of small_state 3 7]
  have "Pop small_state 3 = (Inl (errNoValueWithID 3), small_state)"
    by blast
  moreover from reserved Pop_cases [of small_state 1 7]
  have "Pop small_state 1 = (Inl (errValueNotSet 1), small_state)"
    by blast
  moreover from occupied Pop_cases [of small_state 2 7]
  have "Pop small_state 2
          = (Inr (Some 7), small_state\<lparr>values_m := (values_m small_state)(2 := None)\<rparr>)
        \<and> values_m (snd (Pop small_state 2)) 2 = None
        \<and> Get (snd (Pop small_state 2)) 2 = (None, False)"
    by blast
  ultimately show ?thesis using absent reserved occupied by blast
qed

subsection \<open>Get\<close>

text \<open>
  Claim C5. For every key \<open>k\<close>, \<open>Get(k)\<close> returns \<open>(nil, false)\<close> when \<open>k\<close> is absent and
  when \<open>k\<close> is reserved-empty, so \<open>Get\<close> on any absent key equals \<open>Get\<close> on any
  reserved-empty key, in the same manager or in another one.
\<close>

theorem Get_absent_reserved:
  "(values_m m k = None \<or> values_m m k = Some None \<longrightarrow> Get m k = (None, False))
   \<and> (values_m m a = None \<and> values_m m' b = Some None \<longrightarrow> Get m a = Get m' b)"
  by (auto simp: Get_def)

theorem Get_absent_reserved_witness:
  "values_m small_state 3 = None \<and> values_m small_state 1 = Some None
   \<and> Get small_state 3 = (None, False) \<and> Get small_state 1 = (None, False)
   \<and> Get small_state 3 = Get small_state 1"
proof -
  have absent: "values_m small_state 3 = None"
    and reserved: "values_m small_state 1 = Some None"
    by (simp_all add: small_state_def)
  from absent Get_absent_reserved [of small_state 3 3 small_state 1]
  have "Get small_state 3 = (None, False)" by blast
  moreover from reserved Get_absent_reserved [of small_state 1 3 small_state 1]
  have "Get small_state 1 = (None, False)" by blast
  moreover from absent reserved Get_absent_reserved [of small_state 1 3 small_state 1]
  have "Get small_state 3 = Get small_state 1" by blast
  ultimately show ?thesis using absent reserved by blast
qed

subsection \<open>The cursor\<close>

text \<open>
  Claim C6. \<open>Add\<close>, \<open>Set\<close>, \<open>Pop\<close> and the release closure leave the cursor \<open>lstID\<close> as
  it was, for every state and all arguments, whether they succeed or fail.
\<close>

theorem cursor_unchanged:
  "lstID (snd (Add m k v)) = lstID m
   \<and> lstID (snd (Set m k v)) = lstID m
   \<and> lstID (snd (Pop m k)) = lstID m
   \<and> lstID (constructFreeFunc k m) = lstID m"
  by (simp add: Add_def Set_def Pop_def constructFreeFunc_def split: option.split)


subsection \<open>Reservation on a full table\<close>

lemma unat_before_cursor:
  fixes j lst :: u16
  assumes "j \<noteq> lst"
  shows "unat (j - (lst + 1)) < unat (lst - (lst + 1))"
proof -
  have m: "lst - (lst + 1) = - 1" by simp
  have u: "unat (- 1 :: u16) = 65535" by (simp add: unsigned_minus_1_eq_mask mask_eq_exp_minus_1)
  from assms have "j - (lst + 1) \<noteq> - 1" by simp
  then have "unat (j - (lst + 1)) \<noteq> unat (- 1 :: u16)"
    by (simp only: word_unat_eq_iff not_False_eq_True)
  moreover have "unat (j - (lst + 1)) < 2 ^ 16" by (rule unat_lt_65536)
  ultimately show ?thesis unfolding m u by simp
qed

lemma scan_cursor_iff:
  "scan vals lst (lst + 1) = lst \<longleftrightarrow> (\<forall>j. j \<noteq> lst \<longrightarrow> vals j \<noteq> None)"
proof
  assume r: "scan vals lst (lst + 1) = lst"
  show "\<forall>j. j \<noteq> lst \<longrightarrow> vals j \<noteq> None"
  proof (intro allI impI)
    fix j assume "j \<noteq> lst"
    then have "unat (j - (lst + 1)) < unat (scan vals lst (lst + 1) - (lst + 1))"
      unfolding r by (rule unat_before_cursor)
    then show "vals j \<noteq> None" by (rule scan_skipped)
  qed
next
  assume a: "\<forall>j. j \<noteq> lst \<longrightarrow> vals j \<noteq> None"
  show "scan vals lst (lst + 1) = lst"
    using scan_result [of vals lst "lst + 1"] a by blast
qed

lemma ReserveNextID_fails_iff:
  "fst (ReserveNextID m) = Inl e \<longleftrightarrow>
     e = errNoMoreAvailableValues \<and> scan (values_m m) (lstID m) (lstID m + 1) = lstID m"
  by (auto simp: ReserveNextID_def Let_def)

lemma ReserveNextID_full:
  "\<forall>j. j \<noteq> lstID m \<longrightarrow> values_m m j \<noteq> None \<Longrightarrow>
     ReserveNextID m = (Inl errNoMoreAvailableValues, m)"
  using scan_cursor_iff [of "values_m m" "lstID m"] by (simp add: ReserveNextID_def)

lemma ReserveNextID_full_state:
  "ReserveNextID full_state = (Inl errNoMoreAvailableValues, full_state)"
  by (rule ReserveNextID_full) (simp add: full_state_def)

text \<open>
  Claim C7. When every one of the 65536 keys is present, \<open>ReserveNextID\<close> fails with
  \<open>errNoMoreAvailableValues\<close>. It fails exactly when the loop comes back to the cursor
  without having found an absent key, which is when every key other than the cursor
  is present (the loop does not test the key of the cursor itself). On failure no key
  is returned, the error is \<open>errNoMoreAvailableValues\<close>, and the state is unchanged.
\<close>

theorem ReserveNextID_exhausted:
  "((\<forall>k. values_m m k \<noteq> None) \<longrightarrow> ReserveNextID m = (Inl errNoMoreAvailableValues, m))
   \<and> (fst (ReserveNextID m) = Inl errNoMoreAvailableValues
        \<longleftrightarrow> scan (values_m m) (lstID m) (lstID m + 1) = lstID m)
   \<and> (fst (ReserveNextID m) = Inl errNoMoreAvailableValues
        \<longleftrightarrow> (\<forall>k. k \<noteq> lstID m \<longrightarrow> values_m m k \<noteq> None))
   \<and> (\<forall>e. fst (ReserveNextID m) = Inl e \<longrightarrow>
        e = errNoMoreAvailableValues \<and> snd (ReserveNextID m) = m)"
proof (intro conjI allI impI)
  assume "\<forall>k. values_m m k \<noteq> None"
  then show "ReserveNextID m = (Inl errNoMoreAvailableValues, m)"
    by (intro ReserveNextID_full) simp
next
  show "fst (ReserveNextID m) = Inl errNoMoreAvailableValues
        \<longleftrightarrow> scan (values_m m) (lstID m) (lstID m + 1) = lstID m"
    by (simp add: ReserveNextID_fails_iff)
  then show "fst (ReserveNextID m) = Inl errNoMoreAvailableValues
        \<longleftrightarrow> (\<forall>k. k \<noteq> lstID m \<longrightarrow> values_m m k \<noteq> None)"
    by (simp only: scan_cursor_iff)
next
  fix e assume f: "fst (ReserveNextID m) = Inl e"
  then show "e = errNoMoreAvailableValues" by (simp add: ReserveNextID_fails_iff)
  from f show "snd (ReserveNextID m) = m"
    by (auto simp: ReserveNextID_def Let_def split: if_splits)
qed

theorem ReserveNextID_exhausted_witness:
  "(\<forall>k. values_m full_state k \<noteq> None)
   \<and> ReserveNextID full_state = (Inl errNoMoreAvailableValues, full_state)
   \<and> scan (values_m full_state) (lstID full_state) (lstID full_state + 1) = lstID full_state
   \<and> snd (ReserveNextID full_state) = full_state"
proof -
  have full: "\<forall>k. values_m full_state k \<noteq> None"
    by (simp add: full_state_def)
  note t = ReserveNextID_exhausted [of full_state]
  from full t have r: "ReserveNextID full_state = (Inl errNoMoreAvailableValues, full_state)"
    by blast
  then have f: "fst (ReserveNextID full_state) = Inl errNoMoreAvailableValues" by simp
  with t have "scan (values_m full_state) (lstID full_state) (lstID full_state + 1)
      = lstID full_state"
    by blast
  moreover from f t have "snd (ReserveNextID full_state) = full_state" by blast
  ultimately show ?thesis using full r by blast
qed

subsection \<open>The release closure\<close>

text \<open>
  Claim C8. The release closure bound to \<open>k\<close> removes \<open>k\<close>, and only \<open>k\<close>, from the
  table, whatever value it holds; when \<open>k\<close> is already absent it changes nothing; so
  calling it twice gives the state that calling it once gives. The closures that \<open>Add\<close>
  and \<open>ReserveNextID\<close> return are the release closures of the key added or reserved.
\<close>

theorem free_idempotent:
  "values_m (constructFreeFunc k m) = (values_m m)(k := None)
   \<and> values_m (constructFreeFunc k m) k = None
   \<and> (values_m m k = None \<longrightarrow> constructFreeFunc k m = m)
   \<and> constructFreeFunc k (constructFreeFunc k m) = constructFreeFunc k m
   \<and> (\<forall>free. fst (Add m k v) = Inr free \<longrightarrow> free = constructFreeFunc k)
   \<and> (\<forall>j free. fst (ReserveNextID m) = Inr (j, free) \<longrightarrow> free = constructFreeFunc j)"
proof (intro conjI allI impI)
  show "values_m (constructFreeFunc k m) = (values_m m)(k := None)"
    by (simp add: constructFreeFunc_def)
  show "values_m (constructFreeFunc k m) k = None"
    by (simp add: constructFreeFunc_def)
  show "constructFreeFunc k (constructFreeFunc k m) = constructFreeFunc k m"
    by (simp add: constructFreeFunc_def)
next
  assume "values_m m k = None"
  then have "(values_m m)(k := None) = values_m m" by (simp add: fun_eq_iff)
  then show "constructFreeFunc k m = m" by (simp add: constructFreeFunc_def)
next
  fix free assume "fst (Add m k v) = Inr free"
  then show "free = constructFreeFunc k" by (simp add: Add_def split: if_splits)
next
  fix j free assume "fst (ReserveNextID m) = Inr (j, free)"
  then show "free = constructFreeFunc j"
    by (auto simp: ReserveNextID_def Let_def split: if_splits)
qed

theorem free_idempotent_witness:
  "values_m small_state 3 = None
   \<and> constructFreeFunc 3 small_state = small_state
   \<and> values_m (constructFreeFunc 2 small_state) 2 = None
   \<and> constructFreeFunc 2 (constructFreeFunc 2 small_state) = constructFreeFunc 2 small_state
   \<and> fst (Add small_state 3 (Some 5)) = Inr (constructFreeFunc 3)
   \<and> fst (ReserveNextID wrap_state) = Inr (1, constructFreeFunc 1)"
proof -
  have absent: "values_m small_state 3 = None"
    by (simp add: small_state_def)
  have added: "fst (Add small_state 3 (Some 5)) = Inr (constructFreeFunc 3)"
    by (simp add: Add_def absent)
  have reserved: "fst (ReserveNextID wrap_state) = Inr (1, constructFreeFunc 1)"
    by (simp add: ReserveNextID_wrap_state)
  from absent free_idempotent [of 3 small_state "Some 5"]
  have "constructFreeFunc 3 small_state = small_state" by blast
  moreover from free_idempotent [of 2 small_state "Some 5"]
  have "values_m (constructFreeFunc 2 small_state) 2 = None
        \<and> constructFreeFunc 2 (constructFreeFunc 2 small_state) = constructFreeFunc 2 small_state"
    by blast
  ultimately show ?thesis using absent added reserved by blast
qed

subsection \<open>Failing calls\<close>

text \<open>
  Claim C10. A call that fails leaves the state of the manager, table and cursor, as it
  was: \<open>Pop\<close> returning either of its errors, \<open>Add\<close> returning
  \<open>errValueAlreadyExists\<close>, \<open>Set\<close> returning either of its errors, and
  \<open>ReserveNextID\<close> returning \<open>errNoMoreAvailableValues\<close>.
\<close>

theorem failure_keeps_state:
  "(fst (Pop m k) = Inl e1 \<longrightarrow> snd (Pop m k) = m)
   \<and> (fst (Add m k v) = Inl e2 \<longrightarrow> snd (Add m k v) = m)
   \<and> (fst (Set m k v) = Some e3 \<longrightarrow> snd (Set m k v) = m)
   \<and> (fst (ReserveNextID m) = Inl e4 \<longrightarrow> snd (ReserveNextID m) = m)"
proof (intro conjI impI)
  assume "fst (Pop m k) = Inl e1"
  then show "snd (Pop m k) = m"
    by (simp add: Pop_def split: option.splits if_splits)
next
  assume "fst (Add m k v) = Inl e2"
  then show "snd (Add m k v) = m"
    by (simp add: Add_def split: if_splits)
next
  assume "fst (Set m k v) = Some e3"
  then show "snd (Set m k v) = m"
    by (simp add: Set_def split: option.splits if_splits)
next
  assume "fst (ReserveNextID m) = Inl e4"
  then show "snd (ReserveNextID m) = m"
    by (auto simp: ReserveNextID_def Let_def split: if_splits)
qed

theorem failure_keeps_state_witness:
  "fst (Pop full_state 1) = Inl (errValueNotSet 1) \<and> snd (Pop full_state 1) = full_state
   \<and> fst (Pop small_state 3) = Inl (errNoValueWithID 3) \<and> snd (Pop small_state 3) = small_state
   \<and> fst (Add full_state 1 (Some 5)) = Inl errValueAlreadyExists
   \<and> snd (Add full_state 1 (Some 5)) = full_state
   \<and> fst (Set full_state 2 (Some 5)) = Some errValueAlreadyExists
   \<and> snd (Set full_state 2 (Some 5)) = full_state
   \<and> fst (Set small_state 3 (Some 5)) = Some errIDNotReserved
   \<and> snd (Set small_state 3 (Some 5)) = small_state
   \<and> fst (ReserveNextID full_state) = Inl errNoMoreAvailableValues
   \<and> snd (ReserveNextID full_state) = full_state"
proof -
  have p1: "fst (Pop full_state 1) = Inl (errValueNotSet 1)"
    and a1: "fst (Add full_state 1 (Some 5)) = Inl errValueAlreadyExists"
    and s1: "fst (Set full_state 2 (Some 5)) = Some errValueAlreadyExists"
    by (simp_all add: Pop_def Add_def Set_def full_state_def)
  have p2: "fst (Pop small_state 3) = Inl (errNoValueWithID 3)"
    and s2: "fst (Set small_state 3 (Some 5)) = Some errIDNotReserved"
    by (simp_all add: Pop_def Set_def small_state_def)
  have r1: "fst (ReserveNextID full_state) = Inl errNoMoreAvailableValues"
    by (simp add: ReserveNextID_full_state)
  from p1 a1 r1
    failure_keeps_state [of full_state 1 "errValueNotSet 1" "Some 5" errValueAlreadyExists
      errValueAlreadyExists errNoMoreAvailableValues]
  have "snd (Pop full_state 1) = full_state \<and> snd (Add full_state 1 (Some 5)) = full_state
        \<and> snd (ReserveNextID full_state) = full_state"
    by blast
  moreover from s1
    failure_keeps_state [of full_state 2 "errValueNotSet 1" "Some 5" errValueAlreadyExists
      errValueAlreadyExists errNoMoreAvailableValues]
  have "snd (Set full_state 2 (Some 5)) = full_state" by blast
  moreover from p2 s2
    failure_keeps_state [of small_state 3 "errNoValueWithID 3" "Some 5" errValueAlreadyExists
      errIDNotReserved errNoMoreAvailableValues]
  have "snd (Pop small_state 3) = small_state \<and> snd (Set small_state 3 (Some 5)) = small_state"
    by blast
  ultimately show ?thesis using p1 a1 s1 p2 s2 r1 by blast
qed


subsection \<open>Reserved keys stay reserved\<close>

text \<open>One call keeps the held keys present and distinct, and adds at most a fresh key.\<close>

lemma exec_call_held:
  assumes d: "distinct held"
    and p: "\<forall>k\<in>set held. values_m m k \<noteq> None"
    and r: "case removed_key c of None \<Rightarrow> True | Some k \<Rightarrow> k \<notin> set held"
  shows "distinct (held @ fst (exec_call m c))
       \<and> (\<forall>k\<in>set (held @ fst (exec_call m c)). values_m (snd (exec_call m c)) k \<noteq> None)"
proof (cases c)
  case CallReserveNextID
  show ?thesis
  proof (cases "ReserveNextID m")
    case (Pair res m')
    show ?thesis
    proof (cases res)
      case (Inl e)
      with Pair have "snd (ReserveNextID m) = m"
        by (auto simp: ReserveNextID_def Let_def split: if_splits)
      with Pair Inl CallReserveNextID d p show ?thesis by simp
    next
      case (Inr kf)
      obtain k free where kf: "kf = (k, free)" by (cases kf)
      from Pair Inr kf have s: "ReserveNextID m = (Inr (k, free), m')" by simp
      note t = ReserveNextID_Inr [OF s]
      have absent: "values_m m k = None"
        using scan_result [of "values_m m" "lstID m" "lstID m + 1"] t(1,2) by auto
      with p have "k \<notin> set held" by auto
      moreover from t(4) have "values_m m' = (values_m m)(k \<mapsto> None)" by simp
      ultimately show ?thesis using s CallReserveNextID d p by simp
    qed
  qed
next
  case (CallPop k)
  with r have "k \<notin> set held" by simp
  with CallPop d p show ?thesis
    by (auto simp: Pop_def split: option.splits)
next
  case (CallAdd k v)
  with d p show ?thesis by (auto simp: Add_def)
next
  case (CallSet k v)
  with d p show ?thesis by (auto simp: Set_def split: option.splits)
next
  case (CallGet k)
  with d p show ?thesis by simp
next
  case (CallFree k)
  with r have "k \<notin> set held" by simp
  with CallFree d p show ?thesis by (auto simp: constructFreeFunc_def)
qed

lemma run_calls_held:
  "distinct held \<Longrightarrow> \<forall>k\<in>set held. values_m m k \<noteq> None \<Longrightarrow> keeps_reserved held m cs \<Longrightarrow>
     distinct (held @ fst (run_calls m cs))
     \<and> (\<forall>k\<in>set (held @ fst (run_calls m cs)). values_m (snd (run_calls m cs)) k \<noteq> None)"
proof (induction cs arbitrary: held m)
  case Nil
  then show ?case by simp
next
  case (Cons c cs)
  let ?ks = "fst (exec_call m c)" and ?m1 = "snd (exec_call m c)"
  from Cons.prems(3)
  have r: "case removed_key c of None \<Rightarrow> True | Some k \<Rightarrow> k \<notin> set held"
    and rest: "keeps_reserved (held @ ?ks) ?m1 cs"
    by simp_all
  from exec_call_held [OF Cons.prems(1,2) r]
  have d1: "distinct (held @ ?ks)"
    and p1: "\<forall>k\<in>set (held @ ?ks). values_m ?m1 k \<noteq> None"
    by blast+
  have eq: "fst (run_calls m (c # cs)) = ?ks @ fst (run_calls ?m1 cs)"
    "snd (run_calls m (c # cs)) = snd (run_calls ?m1 cs)"
    by (simp_all split: prod.splits)
  have "distinct (held @ ?ks @ fst (run_calls ?m1 cs))
      \<and> (\<forall>k\<in>set (held @ ?ks @ fst (run_calls ?m1 cs)).
            values_m (snd (run_calls ?m1 cs)) k \<noteq> None)"
    using Cons.IH [OF d1 p1 rest] unfolding append_assoc .
  then show ?case unfolding eq .
qed

lemma keeps_reserved_no_removal:
  "list_all (\<lambda>c. removed_key c = None) cs \<Longrightarrow> keeps_reserved held m cs"
  by (induction cs arbitrary: held m) simp_all

lemma run_example_calls: "fst (run_calls New example_calls) = [1, 3, 4]"
  by (simp add: example_calls_def New_def ReserveNextID_def Add_def Set_def Pop_def
      constructFreeFunc_def scan_present scan_found)

lemma keeps_example_calls: "keeps_reserved [] New example_calls"
  by (simp add: example_calls_def New_def ReserveNextID_def Add_def Set_def Pop_def
      constructFreeFunc_def scan_present scan_found)

text \<open>
  Claim C9. Run any sequence of calls on a manager in which no \<open>Pop\<close> and no release
  closure is applied to a key that a reservation of that sequence has issued. Then the
  keys that the successful \<open>ReserveNextID\<close> calls returned are pairwise distinct, and
  each of them is still present in the table at the end. In particular this holds for
  any number of consecutive \<open>ReserveNextID\<close> calls.
\<close>

theorem reserved_keys_distinct:
  "(keeps_reserved [] m cs \<longrightarrow>
      distinct (fst (run_calls m cs))
      \<and> (\<forall>k\<in>set (fst (run_calls m cs)). values_m (snd (run_calls m cs)) k \<noteq> None))
   \<and> distinct (fst (run_calls m (replicate n CallReserveNextID)))"
proof (intro conjI impI)
  assume k: "keeps_reserved [] m cs"
  from run_calls_held [of "[]" m cs] k
  show "distinct (fst (run_calls m cs))"
    and "\<forall>k\<in>set (fst (run_calls m cs)). values_m (snd (run_calls m cs)) k \<noteq> None"
    by simp_all
next
  have "keeps_reserved [] m (replicate n CallReserveNextID)"
    by (rule keeps_reserved_no_removal) (simp add: list_all_iff)
  with run_calls_held [of "[]" m "replicate n CallReserveNextID"]
  show "distinct (fst (run_calls m (replicate n CallReserveNextID)))"
    by simp
qed

theorem reserved_keys_distinct_witness:
  "keeps_reserved [] New example_calls
   \<and> fst (run_calls New example_calls) = [1, 3, 4]
   \<and> distinct (fst (run_calls New example_calls))
   \<and> values_m (snd (run_calls New example_calls)) 1 \<noteq> None
   \<and> values_m (snd (run_calls New example_calls)) 3 \<noteq> None
   \<and> values_m (snd (run_calls New example_calls)) 4 \<noteq> None"
  using reserved_keys_distinct [of New example_calls 0] keeps_example_calls run_example_calls
  by simp

end
